theory Spec2Isabelle
  imports Main "HOL-Library.Multiset"
begin

section \<open>The log analyzer of analyzer/analyzer.go\<close>

text \<open>
  The embedding follows \<^verbatim>\<open>analyzer.go\<close> function by function. What the Go
  program takes from its runtime and standard library is made explicit:
  \<^item> the compiled pattern is its \<^verbatim>\<open>FindStringSubmatch\<close> function, a slice of
    strings that is empty when the line does not match;
  \<^item> \<^verbatim>\<open>os.Open\<close> followed by \<^verbatim>\<open>bufio.Scanner\<close> is a partial function from a
    path to the lines the scanner delivers; \<open>scanned\<close> below builds it from the bytes
    of the files and the scanner's rules;
  \<^item> \<^verbatim>\<open>time.Parse\<close> and \<^verbatim>\<open>sort.Slice\<close> are parameters;
  \<^item> the order in which \<^verbatim>\<open>range\<close> walks a Go map is not specified by the
    language and differs between runs, so every \<^verbatim>\<open>range\<close> over a map takes the
    order of that walk as a list of keys;
  \<^item> a run-time panic (index out of range, nil dereference) is a failure value.
  Go's \<^verbatim>\<open>int\<close> is modelled as \<open>int\<close>: a counter would need more than
  \<open>2 ^ 63\<close> log lines to wrap.
\<close>

subsection \<open>Errors and panics\<close>

definition ErrConfigIsRequired :: string where
  "ErrConfigIsRequired = ''config is required''"

definition ErrLineRegexIsRequired :: string where
  "ErrLineRegexIsRequired = ''line regex is required''"

definition ErrOpeningFile :: string where
  "ErrOpeningFile = ''error opening file''"

datatype failure =
    errors_New string
  | panic_index_out_of_range
  | panic_nil_dereference

subsection \<open>Data\<close>

type_synonym Regexp = "string \<Rightarrow> string list"

record LogAnalytics =
  UniqueIPCount :: int
  MostActiveIPs :: "string list"
  MostVisitedURLs :: "string list"

record logAnalyzer =
  lineRegex :: "Regexp option"
  mostActiveIPsCount :: int
  mostVisitedURLsCount :: int

record 't Line =
  RemoteHost :: string
  Time :: 't
  Request :: string
  Status :: int
  Bytes :: int
  Referer :: string
  UserAgent :: string
  URL :: string

record LogAnalyzerConfig =
  LineRegex :: "Regexp option"
  MostActiveIPsCount :: int
  MostVisitedURLsCount :: int

record stat =
  address :: string
  count' :: int

subsection \<open>strconv.Atoi\<close>

text \<open>
  \<^verbatim>\<open>strconv.Atoi\<close> on a 64-bit platform: an optional sign, then at least one decimal
  digit and nothing else; a value outside the range of \<^verbatim>\<open>int\<close> is an error.
\<close>

definition is_digit :: "char \<Rightarrow> bool" where
  "is_digit c \<longleftrightarrow> 48 \<le> (of_char c :: nat) \<and> (of_char c :: nat) \<le> 57"

definition digits_val :: "string \<Rightarrow> nat" where
  "digits_val ds = foldl (\<lambda>n ch. n * 10 + (of_char ch - 48)) 0 ds"

definition Atoi :: "string \<Rightarrow> int option" where
  "Atoi s =
     (let (neg, ds) =
            (case s of
               [] \<Rightarrow> (False, [])
             | c # r \<Rightarrow>
                 if c = CHR ''-'' then (True, r)
                 else if c = CHR ''+'' then (False, r)
                 else (False, s))
      in if ds = [] \<or> \<not> list_all is_digit ds then None
         else let n = (if neg then - int (digits_val ds) else int (digits_val ds))
              in if n < - (2 ^ 63) \<or> 2 ^ 63 - 1 < n then None else Some n)"

subsection \<open>readLogLines\<close>

definition layout :: string where
  "layout = ''02/Jan/2006:15:04:05 -0700''"

text \<open>
  The body of the scanner loop for a line that matched: \<open>result\<close> is the slice
  returned by \<^verbatim>\<open>FindStringSubmatch\<close>. The body reads \<open>result[1]\<close> to
  \<open>result[10]\<close>, so a pattern with fewer than ten groups panics here.
  \<open>time_Parse\<close> gives the first component of \<^verbatim>\<open>time.Parse\<close>; the error of
  \<^verbatim>\<open>time.Parse\<close> is dropped by the source.
\<close>

definition lineItem :: "(string \<Rightarrow> string \<Rightarrow> 't) \<Rightarrow> string list \<Rightarrow> failure + 't Line" where
  "lineItem time_Parse result =
     (if length result \<le> 10 then Inl panic_index_out_of_range
      else
        let t = time_Parse layout (result ! 2);
            status = (case Atoi (result ! 7) of None \<Rightarrow> 0 | Some n \<Rightarrow> n);
            bytes = (case Atoi (result ! 8) of None \<Rightarrow> 0 | Some n \<Rightarrow> n);
            url = result ! 4;
            altURL = result ! 6;
            url = (if url = [] \<and> altURL \<noteq> [] then altURL else url)
        in Inr \<lparr>RemoteHost = result ! 1,
                Time = t,
                Request = result ! 3 @ '' '' @ result ! 4 @ '' '' @ result ! 5,
                Status = status,
                Bytes = bytes,
                Referer = result ! 9,
                UserAgent = result ! 10,
                URL = url\<rparr>)"

text \<open>
  The producer goroutine, as the list of records it sends on \<open>outCh\<close>. A panic in
  the goroutine ends the whole program, so it is the result of the run. A nil
  \<open>lineRegex\<close> is dereferenced at the first line scanned.
\<close>

fun readLogLines ::
  "(string \<Rightarrow> string \<Rightarrow> 't) \<Rightarrow> Regexp option \<Rightarrow> string list \<Rightarrow> failure + 't Line list" where
  "readLogLines time_Parse re [] = Inr []"
| "readLogLines time_Parse re (line # rest) =
     (case re of
        None \<Rightarrow> Inl panic_nil_dereference
      | Some FindStringSubmatch \<Rightarrow>
          let result = FindStringSubmatch line
          in if length result \<le> 0 then readLogLines time_Parse re rest
             else
               (case lineItem time_Parse result of
                  Inl e \<Rightarrow> Inl e
                | Inr item \<Rightarrow>
                    (case readLogLines time_Parse re rest of
                       Inl e \<Rightarrow> Inl e
                     | Inr items \<Rightarrow> Inr (item # items))))"

subsection \<open>The frequency tables\<close>

text \<open>
  \<^verbatim>\<open>count, exists := m[k]; if !exists { m[k] = 0 }; m[k] = count + 1\<close>
\<close>

definition consolidate :: "(string \<rightharpoonup> int) \<Rightarrow> string \<Rightarrow> (string \<rightharpoonup> int)" where
  "consolidate m k =
     (let (cnt, exists) = (case m k of None \<Rightarrow> (0, False) | Some c \<Rightarrow> (c, True));
          m1 = (if \<not> exists then m(k \<mapsto> 0) else m)
      in m1(k \<mapsto> cnt + 1))"

text \<open>The consumer loop of \<^verbatim>\<open>Analyze\<close> over the records received from \<open>lineCh\<close>.\<close>

fun streaming_pass ::
  "'t Line list \<Rightarrow> (string \<rightharpoonup> int) \<times> (string \<rightharpoonup> int) \<Rightarrow> (string \<rightharpoonup> int) \<times> (string \<rightharpoonup> int)" where
  "streaming_pass [] (uniqueIps, urlHits) = (uniqueIps, urlHits)"
| "streaming_pass (line # rest) (uniqueIps, urlHits) =
     streaming_pass rest (consolidate uniqueIps (RemoteHost line), consolidate urlHits (URL line))"

subsection \<open>topMost\<close>

text \<open>The \<open>less\<close> closure handed to \<^verbatim>\<open>sort.Slice\<close>.\<close>

definition less_stat :: "stat \<Rightarrow> stat \<Rightarrow> bool" where
  "less_stat si sj \<longleftrightarrow> count' si > count' sj"

text \<open>
  \<^verbatim>\<open>for i := 0; i < top; i++ { topMost = append(topMost, stats[i].address) }\<close>
  with the bounds check of \<open>stats[i]\<close>; \<open>top_n\<close> is the parameter \<open>top\<close>.
\<close>

function topMost_loop :: "stat list \<Rightarrow> int \<Rightarrow> int \<Rightarrow> string list \<Rightarrow> failure + string list" where
  "topMost_loop stats top_n i acc =
     (if i < top_n then
        (if i < 0 \<or> int (length stats) \<le> i then Inl panic_index_out_of_range
         else topMost_loop stats top_n (i + 1) (acc @ [address (stats ! nat i)]))
      else Inr acc)"
  by pat_completeness auto
termination
  by (relation "measure (\<lambda>(stats, top_n, i, acc). nat (top_n - i))") auto

declare topMost_loop.simps [simp del]

text \<open>
  \<open>keys\<close> is the order in which \<^verbatim>\<open>for k, v := range metrics\<close> visits the map.
\<close>

definition topMost ::
  "((stat \<Rightarrow> stat \<Rightarrow> bool) \<Rightarrow> stat list \<Rightarrow> stat list) \<Rightarrow> string list \<Rightarrow>
   (string \<rightharpoonup> int) \<Rightarrow> int \<Rightarrow> failure + string list" where
  "topMost sort_Slice keys metrics top_n =
     (let stats = map (\<lambda>k. \<lparr>address = k, count' = the (metrics k)\<rparr>) keys;
          stats = sort_Slice less_stat stats
      in topMost_loop stats top_n 0 [])"

subsection \<open>Analyze and NewLogAnalyzer\<close>

definition Analyze ::
  "((stat \<Rightarrow> stat \<Rightarrow> bool) \<Rightarrow> stat list \<Rightarrow> stat list) \<Rightarrow> (string \<Rightarrow> string \<Rightarrow> 't) \<Rightarrow>
   (string \<Rightarrow> string list option) \<Rightarrow> string list \<Rightarrow> string list \<Rightarrow>
   logAnalyzer \<Rightarrow> string \<Rightarrow> failure + LogAnalytics" where
  "Analyze sort_Slice time_Parse os_Open ipKeys urlKeys l filePath =
     (case os_Open filePath of
        None \<Rightarrow> Inl (errors_New ErrOpeningFile)
      | Some file \<Rightarrow>
          (case readLogLines time_Parse (lineRegex l) file of
             Inl e \<Rightarrow> Inl e
           | Inr lines \<Rightarrow>
               let (uniqueIps, urlHits) = streaming_pass lines (Map.empty, Map.empty)
               in (case topMost sort_Slice ipKeys uniqueIps (mostActiveIPsCount l) of
                     Inl e \<Rightarrow> Inl e
                   | Inr mostActiveIPs \<Rightarrow>
                       (case topMost sort_Slice urlKeys urlHits (mostVisitedURLsCount l) of
                          Inl e \<Rightarrow> Inl e
                        | Inr mostVisitedURLs \<Rightarrow>
                            Inr \<lparr>UniqueIPCount = int (card (dom uniqueIps)),
                                 MostActiveIPs = mostActiveIPs,
                                 MostVisitedURLs = mostVisitedURLs\<rparr>))))"

definition NewLogAnalyzer :: "LogAnalyzerConfig option \<Rightarrow> failure + logAnalyzer" where
  "NewLogAnalyzer config =
     (case config of
        None \<Rightarrow> Inl (errors_New ErrConfigIsRequired)
      | Some c \<Rightarrow>
          if LineRegex c = None then Inl (errors_New ErrLineRegexIsRequired)
          else Inr \<lparr>lineRegex = LineRegex c,
                    mostActiveIPsCount = MostActiveIPsCount c,
                    mostVisitedURLsCount = MostVisitedURLsCount c\<rparr>)"

subsection \<open>What the runtime may do\<close>

text \<open>
  A walk of \<^verbatim>\<open>range\<close> over a map visits every key exactly once, in some order.
\<close>

definition range_order :: "string list \<Rightarrow> (string \<rightharpoonup> int) \<Rightarrow> bool" where
  "range_order keys metrics \<longleftrightarrow> distinct keys \<and> set keys = dom metrics"

text \<open>
  \<^verbatim>\<open>sort.Slice\<close> permutes the slice so that no element is less than an earlier one;
  it promises nothing about the order of elements that compare equal.
\<close>

definition sort_Slice_spec :: "((stat \<Rightarrow> stat \<Rightarrow> bool) \<Rightarrow> stat list \<Rightarrow> stat list) \<Rightarrow> bool" where
  "sort_Slice_spec sort_Slice \<longleftrightarrow>
     (\<forall>xs. mset (sort_Slice less_stat xs) = mset xs \<and>
           sorted_wrt (\<lambda>a b. \<not> less_stat b a) (sort_Slice less_stat xs))"

text \<open>
  The insertion sort that \<^verbatim>\<open>sort.Slice\<close> runs on a short slice (of at most
  twelve elements): each element moves left while it is less than its left neighbour.
\<close>

fun insert_left :: "('a \<Rightarrow> 'a \<Rightarrow> bool) \<Rightarrow> 'a \<Rightarrow> 'a list \<Rightarrow> 'a list" where
  "insert_left lt x [] = [x]"
| "insert_left lt x (y # ys) = (if lt x y then y # insert_left lt x ys else x # y # ys)"

text \<open>The part already sorted is kept reversed, its last element first.\<close>

definition insertionSort :: "('a \<Rightarrow> 'a \<Rightarrow> bool) \<Rightarrow> 'a list \<Rightarrow> 'a list" where
  "insertionSort lt xs = rev (foldl (\<lambda>sorted_part x. insert_left lt x sorted_part) [] xs)"

subsection \<open>bufio.Scanner\<close>







subsection \<open>A pattern for the examples\<close>

text \<open>
  \<^verbatim>\<open>FindStringSubmatch\<close> of the pattern
  \<^verbatim>\<open>^([^ ]*) ([^ ]*) ([^ ]*) ([^ ]*) ([^ ]*) ([^ ]*) ([^ ]*) ([^ ]*) ([^ ]*) ([^ ]*)$\<close>:
  a line matches when it has exactly nine spaces, and the ten groups are the pieces
  between them.
\<close>

fun split_on :: "char \<Rightarrow> string \<Rightarrow> string list" where
  "split_on c [] = [[]]"
| "split_on c (x # xs) =
     (if x = c then [] # split_on c xs
      else (case split_on c xs of [] \<Rightarrow> [[x]] | w # ws \<Rightarrow> (x # w) # ws))"

definition ten_fields :: Regexp where
  "ten_fields line =
     (let pieces = split_on CHR '' '' line
      in if length pieces = 10 then line # pieces else [])"

section \<open>Properties\<close>

subsection \<open>The loop of topMost\<close>

lemma topMost_loop_eq:
  "0 \<le> i \<Longrightarrow> topMost_loop stats n i acc =
     (if i < n then
        (if n \<le> int (length stats)
         then Inr (acc @ map address (take (nat (n - i)) (drop (nat i) stats)))
         else Inl panic_index_out_of_range)
      else Inr acc)"
proof (induction stats n i acc rule: topMost_loop.induct)
  case (1 stats n i acc)
  show ?case
  proof (cases "i < n")
    case False
    then show ?thesis by (simp add: topMost_loop.simps)
  next
    case True
    show ?thesis
    proof (cases "int (length stats) \<le> i")
      case True
      with \<open>i < n\<close> show ?thesis by (simp add: topMost_loop.simps)
    next
      case False
      with \<open>i < n\<close> 1 have IH: "topMost_loop stats n (i + 1) (acc @ [address (stats ! nat i)]) =
        (if i + 1 < n then
          (if n \<le> int (length stats)
           then Inr ((acc @ [address (stats ! nat i)]) @ map address (take (nat (n - (i + 1))) (drop (nat (i + 1)) stats)))
           else Inl panic_index_out_of_range)
         else Inr (acc @ [address (stats ! nat i)]))"
        by simp
      have lt: "nat i < length stats" using False 1 by simp
      have d: "drop (nat i) stats = stats ! nat i # drop (nat (i + 1)) stats"
        using lt 1(2) by (simp add: Cons_nth_drop_Suc nat_add_distrib)
      have t: "nat (n - i) = Suc (nat (n - (i + 1)))" using \<open>i < n\<close> by simp
      show ?thesis
        using \<open>i < n\<close> False 1(2) IH
        apply (subst topMost_loop.simps)
        apply (simp add: d t)
        done
    qed
  qed
qed

lemma topMost_loop_0:
  "topMost_loop stats n 0 [] =
     (if int (length stats) < n then Inl panic_index_out_of_range
      else Inr (map address (take (nat n) stats)))"
  by (simp add: topMost_loop_eq)


subsection \<open>Sorting\<close>

lemma mset_insert_left: "mset (insert_left lt x ys) = add_mset x (mset ys)"
  by (induction ys) auto

lemma set_insert_left: "set (insert_left lt x ys) = insert x (set ys)"
  by (induction ys) auto

lemma sorted_insert_left:
  "sorted_wrt (\<lambda>a b. count' a \<le> count' b) ys \<Longrightarrow>
   sorted_wrt (\<lambda>a b. count' a \<le> count' b) (insert_left less_stat x ys)"
  by (induction ys) (auto simp: set_insert_left less_stat_def)

lemma mset_foldl_insert_left:
  "mset (foldl (\<lambda>p x. insert_left lt x p) acc xs) = mset acc + mset xs"
  by (induction xs arbitrary: acc) (auto simp: mset_insert_left)

lemma sorted_foldl_insert_left:
  "sorted_wrt (\<lambda>a b. count' a \<le> count' b) acc \<Longrightarrow>
   sorted_wrt (\<lambda>a b. count' a \<le> count' b) (foldl (\<lambda>p x. insert_left less_stat x p) acc xs)"
  by (induction xs arbitrary: acc) (auto simp: sorted_insert_left)

lemma not_less_stat: "(\<not> less_stat b a) = (count' b \<le> count' a)"
  by (auto simp: less_stat_def)

lemma insertionSort_spec: "sort_Slice_spec insertionSort"
proof -
  have "sorted_wrt (\<lambda>a b. count' a \<le> count' b) (foldl (\<lambda>p x. insert_left less_stat x p) [] xs)" for xs
    by (rule sorted_foldl_insert_left) simp
  then show ?thesis
    by (simp add: sort_Slice_spec_def insertionSort_def mset_foldl_insert_left
        sorted_wrt_rev not_less_stat)
qed

subsection \<open>The sorted statistics\<close>

lemma stats_of_range:
  assumes ms: "mset stats = mset (map (\<lambda>k. \<lparr>address = k, count' = the (m k)\<rparr>) keys)"
    and ro: "range_order keys m"
  shows "distinct (map address stats)"
    and "set (map address stats) = dom m"
    and "\<forall>s\<in>set stats. count' s = the (m (address s))"
    and "length stats = card (dom m)"
proof -
  let ?mk = "\<lambda>k. \<lparr>address = k, count' = the (m k)\<rparr>"
  have "mset (map address stats) = mset (map address (map ?mk keys))"
    using ms by (metis mset_map)
  also have "map address (map ?mk keys) = keys" by (simp add: comp_def)
  finally have mk: "mset (map address stats) = mset keys" .
  from ro have dk: "distinct keys" and sk: "set keys = dom m"
    by (simp_all add: range_order_def)
  show "distinct (map address stats)"
    using mk dk by (metis mset_eq_imp_distinct_iff)
  show "set (map address stats) = dom m"
    using mk sk by (metis mset_eq_setD)
  have "set stats = set (map ?mk keys)" using ms by (rule mset_eq_setD)
  then show "\<forall>s\<in>set stats. count' s = the (m (address s))" by auto
  have "length stats = length keys" using ms by (metis length_map mset_eq_length)
  also have "\<dots> = card (dom m)" using dk sk by (metis distinct_card)
  finally show "length stats = card (dom m)" .
qed

lemma topMost_eq:
  assumes sp: "sort_Slice_spec srt" and ro: "range_order keys m"
  shows "\<exists>stats. mset stats = mset (map (\<lambda>k. \<lparr>address = k, count' = the (m k)\<rparr>) keys) \<and>
           sorted_wrt (\<lambda>a b. count' b \<le> count' a) stats \<and>
           topMost srt keys m n =
             (if int (card (dom m)) < n then Inl panic_index_out_of_range
              else Inr (map address (take (nat n) stats)))"
proof -
  let ?raw = "map (\<lambda>k. \<lparr>address = k, count' = the (m k)\<rparr>) keys"
  let ?st = "srt less_stat ?raw"
  have ms: "mset ?st = mset ?raw" and so: "sorted_wrt (\<lambda>a b. \<not> less_stat b a) ?st"
    using sp by (simp_all add: sort_Slice_spec_def)
  have so': "sorted_wrt (\<lambda>a b. count' b \<le> count' a) ?st"
    using so by (simp add: not_less_stat)
  have len: "length ?st = card (dom m)" using stats_of_range(4)[OF ms ro] .
  have "topMost srt keys m n =
             (if int (card (dom m)) < n then Inl panic_index_out_of_range
              else Inr (map address (take (nat n) ?st)))"
    by (simp add: topMost_def topMost_loop_0 len Let_def)
  with ms so' show ?thesis by blast
qed

subsection \<open>Analyze after the file is read\<close>

lemma Analyze_opened:
  assumes "os_Open path = Some file"
    and "readLogLines tp (lineRegex l) file = Inr recs"
    and "streaming_pass recs (Map.empty, Map.empty) = (ips, urls)"
  shows "Analyze srt tp os_Open ipKeys urlKeys l path =
     (case topMost srt ipKeys ips (mostActiveIPsCount l) of
        Inl e \<Rightarrow> Inl e
      | Inr a \<Rightarrow>
          (case topMost srt urlKeys urls (mostVisitedURLsCount l) of
             Inl e \<Rightarrow> Inl e
           | Inr u \<Rightarrow> Inr \<lparr>UniqueIPCount = int (card (dom ips)), MostActiveIPs = a, MostVisitedURLs = u\<rparr>))"
  using assms by (simp add: Analyze_def)

lemma topMost_cases:
  assumes "sort_Slice_spec srt" and "range_order keys m"
  shows "topMost srt keys m n = Inl panic_index_out_of_range \<or> (\<exists>r. topMost srt keys m n = Inr r)"
  using topMost_eq[OF assms, of n] by (auto split: if_splits)

subsection \<open>Reading the lines\<close>

lemma lineItem_ok:
  "10 < length result \<Longrightarrow> \<exists>item. lineItem tp result = Inr item \<and>
     RemoteHost item = result ! 1 \<and>
     URL item = (if result ! 4 = [] \<and> result ! 6 \<noteq> [] then result ! 6 else result ! 4)"
  by (simp add: lineItem_def Let_def)


lemma readLogLines_matched:
  "\<forall>s\<in>set file. rx s \<noteq> [] \<longrightarrow> 10 < length (rx s) \<Longrightarrow>
   readLogLines tp (Some rx) file =
     Inr (map (\<lambda>s. projr (lineItem tp (rx s))) (filter (\<lambda>s. rx s \<noteq> []) file))"
proof (induction "file")
  case Nil
  then show ?case by simp
next
  case (Cons s rest)
  show ?case
  proof (cases "rx s = []")
    case True
    then show ?thesis using Cons by simp
  next
    case False
    with Cons.prems have "10 < length (rx s)" by simp
    from lineItem_ok[OF this, of tp] obtain item where "lineItem tp (rx s) = Inr item" by blast
    then show ?thesis using False Cons by simp
  qed
qed


lemma readLogLines_failure:
  "readLogLines tp re file = Inl e \<Longrightarrow> e = panic_index_out_of_range \<or> e = panic_nil_dereference"
proof (induction "file")
  case Nil
  then show ?case by simp
next
  case (Cons s rest)
  then show ?case
    by (auto simp: lineItem_def Let_def split: option.splits if_splits sum.splits)
qed

lemma topMost_failure:
  "topMost srt keys m n = Inl e \<Longrightarrow> e = panic_index_out_of_range"
  by (simp add: topMost_def topMost_loop_0 Let_def split: if_splits)


subsection \<open>The frequency tables as occurrence counts\<close>

lemma consolidate_eq:
  "consolidate m k = m(k \<mapsto> (case m k of None \<Rightarrow> 0 | Some c \<Rightarrow> c) + 1)"
  by (simp add: consolidate_def split: option.splits)

lemma foldl_consolidate:
  "foldl consolidate m ks =
     (\<lambda>k. if k \<in> set ks
          then Some ((case m k of None \<Rightarrow> 0 | Some c \<Rightarrow> c) + int (count_list ks k))
          else m k)"
proof (induction ks arbitrary: m)
  case Nil
  then show ?case by simp
next
  case (Cons a ks)
  show ?case
  proof (rule ext)
    fix k
    have "foldl consolidate m (a # ks) k = foldl consolidate (consolidate m a) ks k"
      by simp
    also have "\<dots> =
        (if k \<in> set ks
         then Some ((case consolidate m a k of None \<Rightarrow> 0 | Some c \<Rightarrow> c) + int (count_list ks k))
         else consolidate m a k)"
      using Cons.IH[of "consolidate m a"] by simp
    also have "\<dots> =
        (if k \<in> set (a # ks)
         then Some ((case m k of None \<Rightarrow> 0 | Some c \<Rightarrow> c) + int (count_list (a # ks) k))
         else m k)"
      by (simp add: consolidate_eq split: option.splits)
    finally show "foldl consolidate m (a # ks) k =
        (if k \<in> set (a # ks)
         then Some ((case m k of None \<Rightarrow> 0 | Some c \<Rightarrow> c) + int (count_list (a # ks) k))
         else m k)" .
  qed
qed

lemma tally_empty:
  "foldl consolidate Map.empty ks =
     (\<lambda>k. if k \<in> set ks then Some (int (count_list ks k)) else None)"
  by (simp add: foldl_consolidate fun_eq_iff)

lemma dom_tally: "dom (foldl consolidate Map.empty ks) = set ks"
  by (auto simp: tally_empty dom_def)

lemma sum_tally:
  "(\<Sum>k\<in>dom (foldl consolidate Map.empty ks). the (foldl consolidate Map.empty ks k))
     = int (length ks)"
proof -
  have "(\<Sum>k\<in>set ks. the (foldl consolidate Map.empty ks k)) = (\<Sum>k\<in>set ks. int (count_list ks k))"
    by (rule sum.cong) (simp_all add: tally_empty)
  also have "\<dots> = int (\<Sum>k\<in>set ks. count_list ks k)" by simp
  also have "\<dots> = int (length ks)" by (simp add: sum_count_set)
  finally show ?thesis by (simp add: dom_tally)
qed

lemma tally_positive: "foldl consolidate Map.empty ks k = Some c \<Longrightarrow> 1 \<le> c"
proof -
  assume a: "foldl consolidate Map.empty ks k = Some c"
  then have k: "k \<in> set ks" and c: "c = int (count_list ks k)"
    by (auto simp: tally_empty split: if_splits)
  from k have "count_list ks k \<noteq> 0" by (simp add: count_list_0_iff)
  with c show ?thesis by simp
qed

lemma streaming_pass_foldl:
  "streaming_pass recs (a, b) =
     (foldl consolidate a (map RemoteHost recs), foldl consolidate b (map URL recs))"
  by (induction recs arbitrary: a b) auto

lemma readLogLines_length:
  "readLogLines tp (Some rx) lns = Inr recs \<Longrightarrow>
   length recs = length (filter (\<lambda>s. rx s \<noteq> []) lns)"
proof (induction lns arbitrary: recs)
  case Nil
  then show ?case by simp
next
  case (Cons s lns)
  then show ?case by (auto split: if_splits sum.splits)
qed

subsection \<open>Two walks of the same table\<close>

lemma sorted_desc_counts_unique:
  assumes ms: "mset xs = mset ys"
    and sx: "sorted_wrt (\<lambda>a b. count' b \<le> count' a) xs"
    and sy: "sorted_wrt (\<lambda>a b. count' b \<le> count' a) ys"
  shows "map count' xs = map count' ys"
proof -
  have rx: "sorted (rev (map count' xs))" using sx by (simp add: sorted_wrt_rev sorted_wrt_map)
  have ry: "sorted (rev (map count' ys))" using sy by (simp add: sorted_wrt_rev sorted_wrt_map)
  have "mset (rev (map count' xs)) = mset (rev (map count' ys))"
    using ms by (metis mset_map mset_rev)
  then have "sort (rev (map count' ys)) = rev (map count' xs)"
    using rx by (metis properties_for_sort)
  moreover have "sort (rev (map count' ys)) = rev (map count' ys)"
    using ry by (simp add: sorted_sort_id)
  ultimately show ?thesis by simp
qed

lemma range_order_mset: "range_order keys m \<Longrightarrow> range_order keys' m \<Longrightarrow> mset keys = mset keys'"
  unfolding range_order_def by (metis set_eq_iff_mset_eq_distinct)

lemma topMost_two_walks:
  assumes sp: "sort_Slice_spec srt" and ro: "range_order keys m" and ro': "range_order keys' m"
  shows "rel_sum (=) (\<lambda>r r'. map (\<lambda>k. the (m k)) r = map (\<lambda>k. the (m k)) r' \<and>
                               set r \<subseteq> dom m \<and> set r' \<subseteq> dom m)
           (topMost srt keys m n) (topMost srt keys' m n)"
proof -
  let ?mk = "\<lambda>k. \<lparr>address = k, count' = the (m k)\<rparr>"
  from topMost_eq[OF sp ro, of n] obtain stats where
    ms: "mset stats = mset (map ?mk keys)"
    and so: "sorted_wrt (\<lambda>a b. count' b \<le> count' a) stats"
    and res: "topMost srt keys m n =
             (if int (card (dom m)) < n then Inl panic_index_out_of_range
              else Inr (map address (take (nat n) stats)))" by blast
  from topMost_eq[OF sp ro', of n] obtain stats' where
    ms': "mset stats' = mset (map ?mk keys')"
    and so': "sorted_wrt (\<lambda>a b. count' b \<le> count' a) stats'"
    and res': "topMost srt keys' m n =
             (if int (card (dom m)) < n then Inl panic_index_out_of_range
              else Inr (map address (take (nat n) stats')))" by blast
  note f = stats_of_range[OF ms ro] and f' = stats_of_range[OF ms' ro']
  have "mset (map ?mk keys) = mset (map ?mk keys')"
    using range_order_mset[OF ro ro'] by (metis mset_map)
  then have "mset stats = mset stats'" using ms ms' by simp
  then have c: "map count' stats = map count' stats'"
    using so so' by (rule sorted_desc_counts_unique)
  have cm: "map (\<lambda>s. the (m (address s))) stats = map count' stats"
    using f(3) by simp
  have cm': "map (\<lambda>s. the (m (address s))) stats' = map count' stats'"
    using f'(3) by simp
  have tk: "map (\<lambda>k. the (m k)) (map address (take (nat n) xs)) =
            take (nat n) (map (\<lambda>s. the (m (address s))) xs)" for xs :: "stat list"
    by (simp add: take_map comp_def)
  have a: "map (\<lambda>k. the (m k)) (map address (take (nat n) stats)) = take (nat n) (map count' stats)"
    by (simp only: tk cm)
  have a': "map (\<lambda>k. the (m k)) (map address (take (nat n) stats')) = take (nat n) (map count' stats')"
    by (simp only: tk cm')
  have "set (take (nat n) (map address stats)) \<subseteq> dom m"
    using f(2) set_take_subset by fastforce
  then have s: "set (map address (take (nat n) stats)) \<subseteq> dom m"
    by (simp only: take_map)
  have "set (take (nat n) (map address stats')) \<subseteq> dom m"
    using f'(2) set_take_subset by fastforce
  then have s': "set (map address (take (nat n) stats')) \<subseteq> dom m"
    by (simp only: take_map)
  show ?thesis
    unfolding res res' using a a' c s s' by simp
qed

lemma topMost_no_ties:
  assumes sp: "sort_Slice_spec srt" and ro: "range_order keys m" and ro': "range_order keys' m"
    and inj: "inj_on (\<lambda>k. the (m k)) (dom m)"
  shows "topMost srt keys m n = topMost srt keys' m n"
proof -
  have "r = r'" if "map (\<lambda>k. the (m k)) r = map (\<lambda>k. the (m k)) r'"
    and "set r \<subseteq> dom m" and "set r' \<subseteq> dom m" for r r'
  proof -
    have "inj_on (\<lambda>k. the (m k)) (set r \<union> set r')"
      using inj that(2,3) by (meson Un_least inj_on_subset)
    then show ?thesis using that(1) by (simp add: inj_on_map_eq_map)
  qed
  then show ?thesis
    using topMost_two_walks[OF sp ro ro', of n]
    by (cases "topMost srt keys m n"; cases "topMost srt keys' m n") auto
qed


subsection \<open>The scanner\<close>






subsection \<open>The unique count over the lines delivered\<close>


section \<open>The claims\<close>

text \<open>
  Claim C1. For every frequency table and every requested count strictly greater than
  the number of distinct keys of the table, \<open>topMost\<close> runs into an index out of
  range, a panic, and returns no truncated list; and so does \<open>Analyze\<close> when one of
  its two counts exceeds the number of keys of its table.
\<close>

theorem topMost_out_of_range:
  assumes sp: "sort_Slice_spec srt"
  shows "(range_order keys m \<and> int (card (dom m)) < n \<longrightarrow>
            topMost srt keys m n = Inl panic_index_out_of_range) \<and>
         (os_Open path = Some file \<and> readLogLines tp (lineRegex l) file = Inr recs \<and>
          streaming_pass recs (Map.empty, Map.empty) = (ips, urls) \<and>
          range_order ipKeys ips \<and> range_order urlKeys urls \<and>
          (int (card (dom ips)) < mostActiveIPsCount l \<or>
           int (card (dom urls)) < mostVisitedURLsCount l) \<longrightarrow>
            Analyze srt tp os_Open ipKeys urlKeys l path = Inl panic_index_out_of_range)"
proof -
  have top: "topMost srt ks t k = Inl panic_index_out_of_range"
    if "range_order ks t" "int (card (dom t)) < k" for ks t k
    using topMost_eq[OF sp that(1), of k] that(2) by auto
  have "Analyze srt tp os_Open ipKeys urlKeys l path = Inl panic_index_out_of_range"
    if o: "os_Open path = Some file" and r: "readLogLines tp (lineRegex l) file = Inr recs"
      and s: "streaming_pass recs (Map.empty, Map.empty) = (ips, urls)"
      and ri: "range_order ipKeys ips" and ru: "range_order urlKeys urls"
      and big: "int (card (dom ips)) < mostActiveIPsCount l \<or>
           int (card (dom urls)) < mostVisitedURLsCount l"
  proof (cases "int (card (dom ips)) < mostActiveIPsCount l")
    case True
    then show ?thesis using top[OF ri] unfolding Analyze_opened[where os_Open = os_Open, OF o r s] by simp
  next
    case False
    with big have "int (card (dom urls)) < mostVisitedURLsCount l" by simp
    then have "topMost srt urlKeys urls (mostVisitedURLsCount l) = Inl panic_index_out_of_range"
      using top[OF ru] by simp
    then show ?thesis
      using topMost_cases[OF sp ri, of "mostActiveIPsCount l"]
      unfolding Analyze_opened[where os_Open = os_Open, OF o r s] by auto
  qed
  with top show ?thesis by blast
qed

theorem topMost_out_of_range_witness:
  "sort_Slice_spec insertionSort \<and>
   range_order [''b'', ''a'', ''c''] [''a'' \<mapsto> 3, ''b'' \<mapsto> 1, ''c'' \<mapsto> 2] \<and>
   int (card (dom [''a'' \<mapsto> 3::int, ''b'' \<mapsto> 1, ''c'' \<mapsto> 2])) < 4 \<and>
   topMost insertionSort [''b'', ''a'', ''c''] [''a'' \<mapsto> 3, ''b'' \<mapsto> 1, ''c'' \<mapsto> 2] 4
     = Inl panic_index_out_of_range \<and>
   Analyze insertionSort (\<lambda>l v. v) [''access.log'' \<mapsto> [''1.1.1.1 t GET /a HTTP  200 5 r ua'']]
     [''1.1.1.1''] [''/a'']
     \<lparr>lineRegex = Some ten_fields, mostActiveIPsCount = 2, mostVisitedURLsCount = 0\<rparr> ''access.log''
     = Inl panic_index_out_of_range"
proof -
  let ?m = "[''a'' \<mapsto> 3::int, ''b'' \<mapsto> 1, ''c'' \<mapsto> 2]"
  let ?l = "\<lparr>lineRegex = Some ten_fields, mostActiveIPsCount = 2, mostVisitedURLsCount = 0\<rparr>"
  let ?rec = "\<lparr>RemoteHost = ''1.1.1.1'', Time = ''t'', Request = ''GET /a HTTP'', Status = 200,
           Bytes = 5, Referer = ''r'', UserAgent = ''ua'', URL = ''/a''\<rparr>"
  let ?fs = "[''access.log'' \<mapsto> [''1.1.1.1 t GET /a HTTP  200 5 r ua'']]"
  have ro: "range_order [''b'', ''a'', ''c''] ?m" by (auto simp: range_order_def)
  have big: "int (card (dom ?m)) < 4" by simp
  have op: "?fs ''access.log'' = Some [''1.1.1.1 t GET /a HTTP  200 5 r ua'']" by simp
  have rd: "readLogLines (\<lambda>l v. v) (lineRegex ?l) [''1.1.1.1 t GET /a HTTP  200 5 r ua''] = Inr [?rec]"
    by (simp add: ten_fields_def lineItem_def Atoi_def is_digit_def digits_val_def layout_def)
  have sp: "streaming_pass [?rec] (Map.empty, Map.empty) = ([''1.1.1.1'' \<mapsto> 1], [''/a'' \<mapsto> 1])"
    by (simp add: consolidate_def)
  have r1: "range_order [''1.1.1.1''] [''1.1.1.1'' \<mapsto> 1]" by (simp add: range_order_def)
  have r2: "range_order [''/a''] [''/a'' \<mapsto> 1]" by (simp add: range_order_def)
  have b2: "int (card (dom [''1.1.1.1'' \<mapsto> 1::int])) < mostActiveIPsCount ?l \<or>
            int (card (dom [''/a'' \<mapsto> 1::int])) < mostVisitedURLsCount ?l" by simp
  note T = topMost_out_of_range[where srt = insertionSort and keys = "[''b'', ''a'', ''c'']"
      and m = ?m and n = 4 and os_Open = ?fs and path = "''access.log''" and l = ?l
      and tp = "\<lambda>l v. v" and ipKeys = "[''1.1.1.1'']" and urlKeys = "[''/a'']",
      OF insertionSort_spec]
  from T ro big
  have t1: "topMost insertionSort [''b'', ''a'', ''c''] ?m 4 = Inl panic_index_out_of_range" by blast
  from T op rd sp r1 r2 b2
  have t2: "Analyze insertionSort (\<lambda>l v. v) ?fs [''1.1.1.1''] [''/a''] ?l ''access.log''
     = Inl panic_index_out_of_range" by blast
  show ?thesis using insertionSort_spec ro big t1 t2 by blast
qed

text \<open>
  Claim C2. For every frequency table and every count \<open>n\<close> from zero to the number
  of distinct keys, \<open>topMost\<close> returns a list of exactly \<open>n\<close> keys, in order of
  non-increasing occurrence count, every listed key counting at least as much as every
  key left out; for \<open>n = 0\<close> the list is empty and there is no error.
\<close>

theorem topMost_sorted_prefix:
  assumes sp: "sort_Slice_spec srt" and ro: "range_order keys m"
    and n0: "0 \<le> n" and nk: "n \<le> int (card (dom m))"
  shows "\<exists>r. topMost srt keys m n = Inr r \<and> int (length r) = n \<and>
           sorted_wrt (\<lambda>a b. the (m b) \<le> the (m a)) r \<and>
           (\<forall>a\<in>set r. \<forall>k\<in>dom m - set r. the (m k) \<le> the (m a)) \<and>
           (n = 0 \<longrightarrow> r = [])"
proof -
  from topMost_eq[OF sp ro, of n] obtain stats where
    ms: "mset stats = mset (map (\<lambda>k. \<lparr>address = k, count' = the (m k)\<rparr>) keys)"
    and so: "sorted_wrt (\<lambda>a b. count' b \<le> count' a) stats"
    and res: "topMost srt keys m n = Inr (map address (take (nat n) stats))"
    using nk by auto
  note facts = stats_of_range[OF ms ro]
  let ?r = "map address (take (nat n) stats)"
  have len: "int (length ?r) = n" using facts(4) n0 nk by simp
  have cnt: "count' s = the (m (address s))" if "s \<in> set stats" for s
    using facts(3) that by blast
  have split: "stats = take (nat n) stats @ drop (nat n) stats" by simp
  have so2: "sorted_wrt (\<lambda>a b. count' b \<le> count' a) (take (nat n) stats @ drop (nat n) stats)"
    using so by simp
  have s1: "sorted_wrt (\<lambda>a b. the (m b) \<le> the (m a)) ?r"
  proof -
    have st: "sorted_wrt (\<lambda>a b. count' b \<le> count' a) (take (nat n) stats)"
      using so by (rule sorted_wrt_take)
    have "sorted_wrt (\<lambda>a b. the (m (address b)) \<le> the (m (address a))) (take (nat n) stats)"
    proof (rule sorted_wrt_mono_rel[OF _ st])
      fix x y
      assume "x \<in> set (take (nat n) stats)" "y \<in> set (take (nat n) stats)"
        and "count' y \<le> count' x"
      then show "the (m (address y)) \<le> the (m (address x))"
        using cnt[OF in_set_takeD] by simp
    qed
    then show ?thesis by (simp add: sorted_wrt_map)
  qed
  have s2: "the (m k) \<le> the (m a)" if a: "a \<in> set ?r" and k: "k \<in> dom m - set ?r" for a k
  proof -
    from a obtain sa where sa: "sa \<in> set (take (nat n) stats)" "a = address sa" by auto
    from k facts(2) obtain sk where sk: "sk \<in> set stats" "k = address sk" by auto
    have "sk \<notin> set (take (nat n) stats)" using k sk by auto
    then have "sk \<in> set (drop (nat n) stats)"
      using sk(1) by (metis Un_iff append_take_drop_id set_append)
    then have "count' sk \<le> count' sa"
      using so2 sa(1) unfolding sorted_wrt_append by blast
    then show ?thesis using cnt[OF sk(1)] cnt[OF in_set_takeD[OF sa(1)]] sa(2) sk(2) by simp
  qed
  have s3: "n = 0 \<longrightarrow> ?r = []" by simp
  show ?thesis using res len s1 s2 s3 by blast
qed


theorem topMost_sorted_prefix_witness:
  "sort_Slice_spec insertionSort \<and>
   range_order [''b'', ''a'', ''c''] [''a'' \<mapsto> 3, ''b'' \<mapsto> 1, ''c'' \<mapsto> 2] \<and>
   (0::int) \<le> 2 \<and> 2 \<le> int (card (dom [''a'' \<mapsto> 3::int, ''b'' \<mapsto> 1, ''c'' \<mapsto> 2])) \<and>
   topMost insertionSort [''b'', ''a'', ''c''] [''a'' \<mapsto> 3, ''b'' \<mapsto> 1, ''c'' \<mapsto> 2] 2
     = Inr [''a'', ''c''] \<and>
   (\<exists>r. topMost insertionSort [''b'', ''a'', ''c''] [''a'' \<mapsto> 3, ''b'' \<mapsto> 1, ''c'' \<mapsto> 2] 2 = Inr r \<and>
        int (length r) = 2 \<and>
        sorted_wrt (\<lambda>a b. the ([''a'' \<mapsto> 3::int, ''b'' \<mapsto> 1, ''c'' \<mapsto> 2] b)
                          \<le> the ([''a'' \<mapsto> 3::int, ''b'' \<mapsto> 1, ''c'' \<mapsto> 2] a)) r)"
proof -
  let ?m = "[''a'' \<mapsto> 3::int, ''b'' \<mapsto> 1, ''c'' \<mapsto> 2]"
  have ro: "range_order [''b'', ''a'', ''c''] ?m" by (auto simp: range_order_def)
  have n0: "(0::int) \<le> 2" by simp
  have nk: "2 \<le> int (card (dom ?m))" by simp
  have ev: "topMost insertionSort [''b'', ''a'', ''c''] ?m 2 = Inr [''a'', ''c'']"
    by (simp add: topMost_def insertionSort_def less_stat_def topMost_loop.simps)
  from topMost_sorted_prefix[OF insertionSort_spec ro n0 nk]
  have "\<exists>r. topMost insertionSort [''b'', ''a'', ''c''] ?m 2 = Inr r \<and>
        int (length r) = 2 \<and> sorted_wrt (\<lambda>a b. the (?m b) \<le> the (?m a)) r"
    by blast
  then show ?thesis using insertionSort_spec ro n0 nk ev by blast
qed

text \<open>
  Claim C3, as stated: two runs of \<open>Analyze\<close> on the same input and configuration
  give identical results, ties in occurrence counts being broken deterministically.
  This fails: \<open>topMost\<close> collects the statistics in the order of a \<^verbatim>\<open>range\<close>
  over the map, which differs from run to run, and sorts them by count alone. Two
  addresses with one request each are listed either way.
\<close>

theorem Analyze_two_runs_differ:
  "sort_Slice_spec insertionSort \<and>
   readLogLines (\<lambda>l v. v) (Some ten_fields)
     [''1.1.1.1 t GET /a HTTP  200 5 r ua'', ''2.2.2.2 t GET /a HTTP  200 5 r ua'']
     = Inr [\<lparr>RemoteHost = ''1.1.1.1'', Time = ''t'', Request = ''GET /a HTTP'', Status = 200,
              Bytes = 5, Referer = ''r'', UserAgent = ''ua'', URL = ''/a''\<rparr>,
            \<lparr>RemoteHost = ''2.2.2.2'', Time = ''t'', Request = ''GET /a HTTP'', Status = 200,
              Bytes = 5, Referer = ''r'', UserAgent = ''ua'', URL = ''/a''\<rparr>] \<and>
   streaming_pass
     [\<lparr>RemoteHost = ''1.1.1.1'', Time = ''t'', Request = ''GET /a HTTP'', Status = 200,
        Bytes = 5, Referer = ''r'', UserAgent = ''ua'', URL = ''/a''\<rparr>,
      \<lparr>RemoteHost = ''2.2.2.2'', Time = ''t'', Request = ''GET /a HTTP'', Status = 200,
        Bytes = 5, Referer = ''r'', UserAgent = ''ua'', URL = ''/a''\<rparr>] (Map.empty, Map.empty)
     = ([''1.1.1.1'' \<mapsto> 1, ''2.2.2.2'' \<mapsto> 1], [''/a'' \<mapsto> 2]) \<and>
   range_order [''1.1.1.1'', ''2.2.2.2''] [''1.1.1.1'' \<mapsto> 1, ''2.2.2.2'' \<mapsto> 1] \<and>
   range_order [''2.2.2.2'', ''1.1.1.1''] [''1.1.1.1'' \<mapsto> 1, ''2.2.2.2'' \<mapsto> 1] \<and>
   range_order [''/a''] [''/a'' \<mapsto> 2] \<and>
   Analyze insertionSort (\<lambda>l v. v)
     [''access.log'' \<mapsto> [''1.1.1.1 t GET /a HTTP  200 5 r ua'', ''2.2.2.2 t GET /a HTTP  200 5 r ua'']]
     [''1.1.1.1'', ''2.2.2.2''] [''/a'']
     \<lparr>lineRegex = Some ten_fields, mostActiveIPsCount = 1, mostVisitedURLsCount = 0\<rparr> ''access.log''
     = Inr \<lparr>UniqueIPCount = 2, MostActiveIPs = [''1.1.1.1''], MostVisitedURLs = []\<rparr> \<and>
   Analyze insertionSort (\<lambda>l v. v)
     [''access.log'' \<mapsto> [''1.1.1.1 t GET /a HTTP  200 5 r ua'', ''2.2.2.2 t GET /a HTTP  200 5 r ua'']]
     [''2.2.2.2'', ''1.1.1.1''] [''/a'']
     \<lparr>lineRegex = Some ten_fields, mostActiveIPsCount = 1, mostVisitedURLsCount = 0\<rparr> ''access.log''
     = Inr \<lparr>UniqueIPCount = 2, MostActiveIPs = [''2.2.2.2''], MostVisitedURLs = []\<rparr> \<and>
   Analyze insertionSort (\<lambda>l v. v)
     [''access.log'' \<mapsto> [''1.1.1.1 t GET /a HTTP  200 5 r ua'', ''2.2.2.2 t GET /a HTTP  200 5 r ua'']]
     [''1.1.1.1'', ''2.2.2.2''] [''/a'']
     \<lparr>lineRegex = Some ten_fields, mostActiveIPsCount = 1, mostVisitedURLsCount = 0\<rparr> ''access.log''
   \<noteq>
   Analyze insertionSort (\<lambda>l v. v)
     [''access.log'' \<mapsto> [''1.1.1.1 t GET /a HTTP  200 5 r ua'', ''2.2.2.2 t GET /a HTTP  200 5 r ua'']]
     [''2.2.2.2'', ''1.1.1.1''] [''/a'']
     \<lparr>lineRegex = Some ten_fields, mostActiveIPsCount = 1, mostVisitedURLsCount = 0\<rparr> ''access.log''"
proof -
  let ?lns = "[''1.1.1.1 t GET /a HTTP  200 5 r ua'', ''2.2.2.2 t GET /a HTTP  200 5 r ua'']"
  let ?recs = "[\<lparr>RemoteHost = ''1.1.1.1'', Time = ''t'', Request = ''GET /a HTTP'', Status = 200,
              Bytes = 5, Referer = ''r'', UserAgent = ''ua'', URL = ''/a''\<rparr>,
            \<lparr>RemoteHost = ''2.2.2.2'', Time = ''t'', Request = ''GET /a HTTP'', Status = 200,
              Bytes = 5, Referer = ''r'', UserAgent = ''ua'', URL = ''/a''\<rparr>]"
  let ?l = "\<lparr>lineRegex = Some ten_fields, mostActiveIPsCount = 1, mostVisitedURLsCount = 0\<rparr>"
  have rd: "readLogLines (\<lambda>l v. v) (Some ten_fields) ?lns = Inr ?recs"
    by (simp add: ten_fields_def lineItem_def Atoi_def is_digit_def digits_val_def layout_def)
  have st: "streaming_pass ?recs (Map.empty, Map.empty)
     = ([''1.1.1.1'' \<mapsto> 1, ''2.2.2.2'' \<mapsto> 1], [''/a'' \<mapsto> 2])"
    by (simp add: consolidate_def)
  have r1: "range_order [''1.1.1.1'', ''2.2.2.2''] [''1.1.1.1'' \<mapsto> 1, ''2.2.2.2'' \<mapsto> 1]"
    by (auto simp: range_order_def)
  have r2: "range_order [''2.2.2.2'', ''1.1.1.1''] [''1.1.1.1'' \<mapsto> 1, ''2.2.2.2'' \<mapsto> 1]"
    by (auto simp: range_order_def)
  have r3: "range_order [''/a''] [''/a'' \<mapsto> 2]"
    by (simp add: range_order_def)
  have t1: "topMost insertionSort [''1.1.1.1'', ''2.2.2.2''] [''1.1.1.1'' \<mapsto> 1, ''2.2.2.2'' \<mapsto> 1] 1
      = Inr [''1.1.1.1'']"
    by (simp add: topMost_def insertionSort_def less_stat_def topMost_loop.simps)
  have t2: "topMost insertionSort [''2.2.2.2'', ''1.1.1.1''] [''1.1.1.1'' \<mapsto> 1, ''2.2.2.2'' \<mapsto> 1] 1
      = Inr [''2.2.2.2'']"
    by (simp add: topMost_def insertionSort_def less_stat_def topMost_loop.simps)
  have t3: "topMost insertionSort [''/a''] [''/a'' \<mapsto> 2] 0 = Inr []"
    by (simp add: topMost_def insertionSort_def less_stat_def topMost_loop.simps)
  have op: "[''access.log'' \<mapsto> ?lns] ''access.log'' = Some ?lns" by simp
  have rd': "readLogLines (\<lambda>l v. v) (lineRegex ?l) ?lns = Inr ?recs" using rd by simp
  note A = Analyze_opened[where os_Open = "[''access.log'' \<mapsto> ?lns]", OF op rd' st]
  have a1: "Analyze insertionSort (\<lambda>l v. v) [''access.log'' \<mapsto> ?lns]
     [''1.1.1.1'', ''2.2.2.2''] [''/a''] ?l ''access.log''
     = Inr \<lparr>UniqueIPCount = 2, MostActiveIPs = [''1.1.1.1''], MostVisitedURLs = []\<rparr>"
    unfolding A by (simp add: t1 t3)
  have a2: "Analyze insertionSort (\<lambda>l v. v) [''access.log'' \<mapsto> ?lns]
     [''2.2.2.2'', ''1.1.1.1''] [''/a''] ?l ''access.log''
     = Inr \<lparr>UniqueIPCount = 2, MostActiveIPs = [''2.2.2.2''], MostVisitedURLs = []\<rparr>"
    unfolding A by (simp add: t2 t3)
  have ne: "Analyze insertionSort (\<lambda>l v. v) [''access.log'' \<mapsto> ?lns]
     [''1.1.1.1'', ''2.2.2.2''] [''/a''] ?l ''access.log'' \<noteq>
     Analyze insertionSort (\<lambda>l v. v) [''access.log'' \<mapsto> ?lns]
     [''2.2.2.2'', ''1.1.1.1''] [''/a''] ?l ''access.log''"
    unfolding a1 a2 by simp
  from insertionSort_spec rd st r1 r2 r3 a1 a2 ne show ?thesis by blast
qed

text \<open>
  Claim C3, amended: two runs of \<open>Analyze\<close> on the same input and configuration
  fail with the same failure, or they return the same unique count and ranked lists
  whose entries have, position by position, the same occurrence counts (\<open>rel_sum\<close>
  relates two failures that are equal and two results related in this way). The two
  results are identical when no two keys of a table have the same count. The two runs
  differ in nothing but the walks of the two maps.
\<close>

theorem Analyze_two_runs:
  assumes sp: "sort_Slice_spec srt"
  shows
    "(let run1 = Analyze srt tp os_Open ipKeys urlKeys l path;
          run2 = Analyze srt tp os_Open ipKeys' urlKeys' l path
      in (os_Open path = None \<longrightarrow> run1 = run2) \<and>
         (os_Open path = Some lns \<and> readLogLines tp (lineRegex l) lns = Inl e \<longrightarrow>
            run1 = run2) \<and>
         (os_Open path = Some lns \<and> readLogLines tp (lineRegex l) lns = Inr recs \<and>
          streaming_pass recs (Map.empty, Map.empty) = (uniqueIps, urlHits) \<and>
          range_order ipKeys uniqueIps \<and> range_order urlKeys urlHits \<and>
          range_order ipKeys' uniqueIps \<and> range_order urlKeys' urlHits \<longrightarrow>
            rel_sum (=)
              (\<lambda>r r'. UniqueIPCount r = UniqueIPCount r' \<and>
                      map (\<lambda>k. the (uniqueIps k)) (MostActiveIPs r) =
                        map (\<lambda>k. the (uniqueIps k)) (MostActiveIPs r') \<and>
                      map (\<lambda>k. the (urlHits k)) (MostVisitedURLs r) =
                        map (\<lambda>k. the (urlHits k)) (MostVisitedURLs r'))
              run1 run2 \<and>
            (inj_on (\<lambda>k. the (uniqueIps k)) (dom uniqueIps) \<and>
             inj_on (\<lambda>k. the (urlHits k)) (dom urlHits) \<longrightarrow> run1 = run2)))"
proof -
  let ?run1 = "Analyze srt tp os_Open ipKeys urlKeys l path"
  let ?run2 = "Analyze srt tp os_Open ipKeys' urlKeys' l path"
  let ?R = "\<lambda>r r'. UniqueIPCount r = UniqueIPCount r' \<and>
                   map (\<lambda>k. the (uniqueIps k)) (MostActiveIPs r) =
                     map (\<lambda>k. the (uniqueIps k)) (MostActiveIPs r') \<and>
                   map (\<lambda>k. the (urlHits k)) (MostVisitedURLs r) =
                     map (\<lambda>k. the (urlHits k)) (MostVisitedURLs r')"
  have closed: "?run1 = ?run2" if "os_Open path = None"
    using that by (simp add: Analyze_def)
  have panics: "?run1 = ?run2"
    if "os_Open path = Some lns" and "readLogLines tp (lineRegex l) lns = Inl e"
    using that by (simp add: Analyze_def)
  have "rel_sum (=) ?R ?run1 ?run2 \<and>
        (inj_on (\<lambda>k. the (uniqueIps k)) (dom uniqueIps) \<and>
         inj_on (\<lambda>k. the (urlHits k)) (dom urlHits) \<longrightarrow> ?run1 = ?run2)"
    if op: "os_Open path = Some lns"
      and rd: "readLogLines tp (lineRegex l) lns = Inr recs"
      and st: "streaming_pass recs (Map.empty, Map.empty) = (uniqueIps, urlHits)"
      and ri: "range_order ipKeys uniqueIps" and ru: "range_order urlKeys urlHits"
      and ri': "range_order ipKeys' uniqueIps" and ru': "range_order urlKeys' urlHits"
  proof -
    note A = Analyze_opened[where os_Open = os_Open, OF op rd st]
    have one: "rel_sum (=) ?R ?run1 ?run2"
    proof -
      consider (fails) e where "topMost srt ipKeys uniqueIps (mostActiveIPsCount l) = Inl e"
          "topMost srt ipKeys' uniqueIps (mostActiveIPsCount l) = Inl e"
        | (lists) a a' where "topMost srt ipKeys uniqueIps (mostActiveIPsCount l) = Inr a"
          "topMost srt ipKeys' uniqueIps (mostActiveIPsCount l) = Inr a'"
          "map (\<lambda>k. the (uniqueIps k)) a = map (\<lambda>k. the (uniqueIps k)) a'"
        using topMost_two_walks[OF sp ri ri', of "mostActiveIPsCount l"]
        by (auto elim: rel_sum.cases)
      then show ?thesis
      proof cases
        case fails
        then show ?thesis unfolding A by simp
      next
        case i: lists
        consider (fails) e where "topMost srt urlKeys urlHits (mostVisitedURLsCount l) = Inl e"
            "topMost srt urlKeys' urlHits (mostVisitedURLsCount l) = Inl e"
          | (lists) u u' where "topMost srt urlKeys urlHits (mostVisitedURLsCount l) = Inr u"
            "topMost srt urlKeys' urlHits (mostVisitedURLsCount l) = Inr u'"
            "map (\<lambda>k. the (urlHits k)) u = map (\<lambda>k. the (urlHits k)) u'"
          using topMost_two_walks[OF sp ru ru', of "mostVisitedURLsCount l"]
          by (auto elim: rel_sum.cases)
        then show ?thesis
        proof cases
          case fails
          then show ?thesis unfolding A using i by simp
        next
          case lists
          then show ?thesis unfolding A using i by simp
        qed
      qed
    qed
    have two: "?run1 = ?run2"
      if "inj_on (\<lambda>k. the (uniqueIps k)) (dom uniqueIps)"
        and "inj_on (\<lambda>k. the (urlHits k)) (dom urlHits)"
      unfolding A
        topMost_no_ties[OF sp ri ri' that(1), of "mostActiveIPsCount l"]
        topMost_no_ties[OF sp ru ru' that(2), of "mostVisitedURLsCount l"] ..
    from one two show ?thesis by blast
  qed
  with closed panics show ?thesis unfolding Let_def by blast
qed

theorem Analyze_two_runs_witness:
  "sort_Slice_spec insertionSort \<and>
   readLogLines (\<lambda>l v. v) (Some ten_fields)
     [''1.1.1.1 t GET /x HTTP  200 5 r ua'', ''1.1.1.1 t GET /x HTTP  200 5 r ua'',
      ''2.2.2.2 t GET /y HTTP  200 5 r ua'']
     = Inr [\<lparr>RemoteHost = ''1.1.1.1'', Time = ''t'', Request = ''GET /x HTTP'', Status = 200,
              Bytes = 5, Referer = ''r'', UserAgent = ''ua'', URL = ''/x''\<rparr>,
            \<lparr>RemoteHost = ''1.1.1.1'', Time = ''t'', Request = ''GET /x HTTP'', Status = 200,
              Bytes = 5, Referer = ''r'', UserAgent = ''ua'', URL = ''/x''\<rparr>,
            \<lparr>RemoteHost = ''2.2.2.2'', Time = ''t'', Request = ''GET /y HTTP'', Status = 200,
              Bytes = 5, Referer = ''r'', UserAgent = ''ua'', URL = ''/y''\<rparr>] \<and>
   range_order [''1.1.1.1'', ''2.2.2.2''] [''1.1.1.1'' \<mapsto> 2, ''2.2.2.2'' \<mapsto> 1] \<and>
   range_order [''2.2.2.2'', ''1.1.1.1''] [''1.1.1.1'' \<mapsto> 2, ''2.2.2.2'' \<mapsto> 1] \<and>
   range_order [''/x'', ''/y''] [''/x'' \<mapsto> 2, ''/y'' \<mapsto> 1] \<and>
   range_order [''/y'', ''/x''] [''/x'' \<mapsto> 2, ''/y'' \<mapsto> 1] \<and>
   inj_on (\<lambda>k. the ([''1.1.1.1'' \<mapsto> 2::int, ''2.2.2.2'' \<mapsto> 1] k))
     (dom [''1.1.1.1'' \<mapsto> 2::int, ''2.2.2.2'' \<mapsto> 1]) \<and>
   inj_on (\<lambda>k. the ([''/x'' \<mapsto> 2::int, ''/y'' \<mapsto> 1] k)) (dom [''/x'' \<mapsto> 2::int, ''/y'' \<mapsto> 1]) \<and>
   Analyze insertionSort (\<lambda>l v. v)
     [''access.log'' \<mapsto> [''1.1.1.1 t GET /x HTTP  200 5 r ua'', ''1.1.1.1 t GET /x HTTP  200 5 r ua'',
        ''2.2.2.2 t GET /y HTTP  200 5 r ua'']]
     [''1.1.1.1'', ''2.2.2.2''] [''/x'', ''/y'']
     \<lparr>lineRegex = Some ten_fields, mostActiveIPsCount = 1, mostVisitedURLsCount = 2\<rparr> ''access.log''
   =
   Analyze insertionSort (\<lambda>l v. v)
     [''access.log'' \<mapsto> [''1.1.1.1 t GET /x HTTP  200 5 r ua'', ''1.1.1.1 t GET /x HTTP  200 5 r ua'',
        ''2.2.2.2 t GET /y HTTP  200 5 r ua'']]
     [''2.2.2.2'', ''1.1.1.1''] [''/y'', ''/x'']
     \<lparr>lineRegex = Some ten_fields, mostActiveIPsCount = 1, mostVisitedURLsCount = 2\<rparr> ''access.log''"
proof -
  let ?lns = "[''1.1.1.1 t GET /x HTTP  200 5 r ua'', ''1.1.1.1 t GET /x HTTP  200 5 r ua'',
      ''2.2.2.2 t GET /y HTTP  200 5 r ua'']"
  let ?recs = "[\<lparr>RemoteHost = ''1.1.1.1'', Time = ''t'', Request = ''GET /x HTTP'', Status = 200,
              Bytes = 5, Referer = ''r'', UserAgent = ''ua'', URL = ''/x''\<rparr>,
            \<lparr>RemoteHost = ''1.1.1.1'', Time = ''t'', Request = ''GET /x HTTP'', Status = 200,
              Bytes = 5, Referer = ''r'', UserAgent = ''ua'', URL = ''/x''\<rparr>,
            \<lparr>RemoteHost = ''2.2.2.2'', Time = ''t'', Request = ''GET /y HTTP'', Status = 200,
              Bytes = 5, Referer = ''r'', UserAgent = ''ua'', URL = ''/y''\<rparr>]"
  let ?l = "\<lparr>lineRegex = Some ten_fields, mostActiveIPsCount = 1, mostVisitedURLsCount = 2\<rparr>"
  let ?ips = "[''1.1.1.1'' \<mapsto> 2::int, ''2.2.2.2'' \<mapsto> 1]"
  let ?urls = "[''/x'' \<mapsto> 2::int, ''/y'' \<mapsto> 1]"
  have rd: "readLogLines (\<lambda>l v. v) (Some ten_fields) ?lns = Inr ?recs"
    by (simp add: ten_fields_def lineItem_def Atoi_def is_digit_def digits_val_def layout_def)
  then have rd': "readLogLines (\<lambda>l v. v) (lineRegex ?l) ?lns = Inr ?recs" by simp
  have st: "streaming_pass ?recs (Map.empty, Map.empty) = (?ips, ?urls)"
    by (simp add: consolidate_def)
  have op: "[''access.log'' \<mapsto> ?lns] ''access.log'' = Some ?lns" by simp
  have r1: "range_order [''1.1.1.1'', ''2.2.2.2''] ?ips" by (auto simp: range_order_def)
  have r2: "range_order [''2.2.2.2'', ''1.1.1.1''] ?ips" by (auto simp: range_order_def)
  have r3: "range_order [''/x'', ''/y''] ?urls" by (auto simp: range_order_def)
  have r4: "range_order [''/y'', ''/x''] ?urls" by (auto simp: range_order_def)
  have i1: "inj_on (\<lambda>k. the (?ips k)) (dom ?ips)" by simp
  have i2: "inj_on (\<lambda>k. the (?urls k)) (dom ?urls)" by simp
  from Analyze_two_runs[where os_Open = "[''access.log'' \<mapsto> ?lns]" and path = "''access.log''"
      and lns = ?lns and tp = "\<lambda>l v. v" and l = ?l and recs = ?recs and uniqueIps = ?ips
      and urlHits = ?urls and ipKeys = "[''1.1.1.1'', ''2.2.2.2'']" and urlKeys = "[''/x'', ''/y'']"
      and ipKeys' = "[''2.2.2.2'', ''1.1.1.1'']" and urlKeys' = "[''/y'', ''/x'']",
      OF insertionSort_spec, unfolded Let_def] op rd' st r1 r3 r2 r4 i1 i2
  have "Analyze insertionSort (\<lambda>l v. v) [''access.log'' \<mapsto> ?lns]
     [''1.1.1.1'', ''2.2.2.2''] [''/x'', ''/y''] ?l ''access.log''
   = Analyze insertionSort (\<lambda>l v. v) [''access.log'' \<mapsto> ?lns]
     [''2.2.2.2'', ''1.1.1.1''] [''/y'', ''/x''] ?l ''access.log''"
    by blast
  with insertionSort_spec rd r1 r2 r3 r4 i1 i2 show ?thesis by blast
qed




text \<open>
  Claim C5. \<open>NewLogAnalyzer\<close> called with no configuration fails with the error
  "config is required"; called with a configuration that has no pattern it fails with
  the different error "line regex is required"; called with a configuration that has a
  pattern it succeeds, whatever the two ranking counts are.
\<close>

theorem NewLogAnalyzer_results:
  "NewLogAnalyzer None = Inl (errors_New ErrConfigIsRequired) \<and>
   NewLogAnalyzer (Some \<lparr>LineRegex = None, MostActiveIPsCount = a, MostVisitedURLsCount = u\<rparr>)
     = Inl (errors_New ErrLineRegexIsRequired) \<and>
   errors_New ErrLineRegexIsRequired \<noteq> errors_New ErrConfigIsRequired \<and>
   NewLogAnalyzer (Some \<lparr>LineRegex = Some rx, MostActiveIPsCount = a, MostVisitedURLsCount = u\<rparr>)
     = Inr \<lparr>lineRegex = Some rx, mostActiveIPsCount = a, mostVisitedURLsCount = u\<rparr>"
  by (simp add: NewLogAnalyzer_def ErrConfigIsRequired_def ErrLineRegexIsRequired_def)

text \<open>
  Claim C6. When the file cannot be opened, \<open>Analyze\<close> returns the error
  "error opening file" and no result; no other failure of \<open>Analyze\<close> is this
  error, and it differs from the two errors of the constructor.
\<close>

theorem Analyze_open_fails:
  "(os_Open path = None \<longrightarrow>
      Analyze srt tp os_Open ipKeys urlKeys l path = Inl (errors_New ErrOpeningFile)) \<and>
   (Analyze srt tp os_Open ipKeys urlKeys l path = Inl (errors_New ErrOpeningFile) \<longrightarrow>
      os_Open path = None) \<and>
   errors_New ErrOpeningFile \<noteq> errors_New ErrConfigIsRequired \<and>
   errors_New ErrOpeningFile \<noteq> errors_New ErrLineRegexIsRequired"
proof -
  have a: "Analyze srt tp os_Open ipKeys urlKeys l path = Inl (errors_New ErrOpeningFile)"
    if "os_Open path = None"
    using that by (simp add: Analyze_def)
  have b: "os_Open path = None"
    if r: "Analyze srt tp os_Open ipKeys urlKeys l path = Inl (errors_New ErrOpeningFile)"
  proof (rule ccontr)
    assume "os_Open path \<noteq> None"
    then obtain fl where f: "os_Open path = Some fl" by blast
    show False
    proof (cases "readLogLines tp (lineRegex l) fl")
      case (Inl e)
      then have "Analyze srt tp os_Open ipKeys urlKeys l path = Inl e"
        using f by (simp add: Analyze_def)
      with r readLogLines_failure[OF Inl] show False by auto
    next
      case (Inr recs)
      obtain ips urls where s: "streaming_pass recs (Map.empty, Map.empty) = (ips, urls)"
        by (cases "streaming_pass recs (Map.empty, Map.empty)") blast
      from r show False
        unfolding Analyze_opened[where os_Open = os_Open, OF f Inr s]
        by (auto split: sum.splits dest: topMost_failure)
    qed
  qed
  have c: "errors_New ErrOpeningFile \<noteq> errors_New ErrConfigIsRequired"
    "errors_New ErrOpeningFile \<noteq> errors_New ErrLineRegexIsRequired"
    by (simp_all add: ErrOpeningFile_def ErrConfigIsRequired_def ErrLineRegexIsRequired_def)
  from a b c show ?thesis by blast
qed

theorem Analyze_open_fails_witness:
  "Map.empty ''./test-data.log'' = (None :: string list option) \<and>
   Analyze insertionSort (\<lambda>l v. v) Map.empty [] []
     \<lparr>lineRegex = Some ten_fields, mostActiveIPsCount = 0, mostVisitedURLsCount = 0\<rparr>
     ''./test-data.log'' = Inl (errors_New ''error opening file'')"
  using Analyze_open_fails[where os_Open = Map.empty and path = "''./test-data.log''"
      and srt = insertionSort and tp = "\<lambda>l v. v" and ipKeys = "[]" and urlKeys = "[]"
      and l = "\<lparr>lineRegex = Some ten_fields, mostActiveIPsCount = 0, mostVisitedURLsCount = 0\<rparr>"]
  by (simp add: ErrOpeningFile_def)

text \<open>
  Claim C7. For every matched line the resolved URL of the decoded record is the
  alternate capture (group 6) when the primary capture (group 4) is empty and the
  alternate one is not; in every other case it is the primary capture, which may be
  the empty string.
\<close>

theorem readLogLines_URL:
  assumes "\<forall>s\<in>set file. rx s \<noteq> [] \<longrightarrow> 10 < length (rx s)"
  shows "\<exists>recs. readLogLines tp (Some rx) file = Inr recs \<and>
           map URL recs =
             map (\<lambda>s. if rx s ! 4 = [] \<and> rx s ! 6 \<noteq> [] then rx s ! 6 else rx s ! 4)
                 (filter (\<lambda>s. rx s \<noteq> []) file)"
proof -
  have "URL (projr (lineItem tp (rx s))) =
          (if rx s ! 4 = [] \<and> rx s ! 6 \<noteq> [] then rx s ! 6 else rx s ! 4)"
    if "s \<in> set (filter (\<lambda>s. rx s \<noteq> []) file)" for s
  proof -
    from that assms have "10 < length (rx s)" by simp
    from lineItem_ok[OF this, of tp] show ?thesis by auto
  qed
  then show ?thesis
    unfolding readLogLines_matched[OF assms] by simp
qed


theorem readLogLines_URL_witness:
  "list_all (\<lambda>s. ten_fields s = [] \<or> 10 < length (ten_fields s))
     [''1.1.1.1 t GET /a HTTP  200 5 r ua'', [], ''1.1.1.1 t GET  HTTP /alt 200 5 r ua'',
      ''1.1.1.1 t GET  HTTP  200 5 r ua''] \<and>
   (\<exists>recs. readLogLines (\<lambda>l v. v) (Some ten_fields)
       [''1.1.1.1 t GET /a HTTP  200 5 r ua'', [], ''1.1.1.1 t GET  HTTP /alt 200 5 r ua'',
        ''1.1.1.1 t GET  HTTP  200 5 r ua''] = Inr recs \<and>
      map URL recs = [''/a'', ''/alt'', []])"
proof -
  let ?f = "[''1.1.1.1 t GET /a HTTP  200 5 r ua'', [], ''1.1.1.1 t GET  HTTP /alt 200 5 r ua'',
      ''1.1.1.1 t GET  HTTP  200 5 r ua'']"
  have h: "list_all (\<lambda>s. ten_fields s = [] \<or> 10 < length (ten_fields s)) ?f"
    by (simp add: ten_fields_def)
  then have h': "\<forall>s\<in>set ?f. ten_fields s \<noteq> [] \<longrightarrow> 10 < length (ten_fields s)"
    unfolding list_all_iff by blast
  have "map (\<lambda>s. if ten_fields s ! 4 = [] \<and> ten_fields s ! 6 \<noteq> [] then ten_fields s ! 6
                   else ten_fields s ! 4) (filter (\<lambda>s. ten_fields s \<noteq> []) ?f) = [''/a'', ''/alt'', []]"
    by (simp add: ten_fields_def)
  with readLogLines_URL[OF h', of "\<lambda>l v. v"] h show ?thesis by simp
qed

text \<open>
  Claim C8. After the streaming pass of \<open>Analyze\<close> the counts of the address table
  and the counts of the URL table both add up to the number of decoded records, which
  is the number of matched lines, and every count stored in either table is at least 1.
\<close>

theorem streaming_pass_counts:
  assumes rd: "readLogLines tp (Some rx) lns = Inr recs"
    and sp: "streaming_pass recs (Map.empty, Map.empty) = (uniqueIps, urlHits)"
  shows "(\<Sum>k\<in>dom uniqueIps. the (uniqueIps k)) = (\<Sum>k\<in>dom urlHits. the (urlHits k)) \<and>
         (\<Sum>k\<in>dom uniqueIps. the (uniqueIps k)) = int (length recs) \<and>
         (\<Sum>k\<in>dom urlHits. the (urlHits k)) = int (length recs) \<and>
         length recs = length (filter (\<lambda>s. rx s \<noteq> []) lns) \<and>
         (\<forall>k c. uniqueIps k = Some c \<longrightarrow> 1 \<le> c) \<and>
         (\<forall>k c. urlHits k = Some c \<longrightarrow> 1 \<le> c)"
proof -
  from sp have i: "uniqueIps = foldl consolidate Map.empty (map RemoteHost recs)"
    and u: "urlHits = foldl consolidate Map.empty (map URL recs)"
    by (simp_all add: streaming_pass_foldl)
  have si: "(\<Sum>k\<in>dom uniqueIps. the (uniqueIps k)) = int (length recs)"
    unfolding i using sum_tally[of "map RemoteHost recs"] by simp
  have su: "(\<Sum>k\<in>dom urlHits. the (urlHits k)) = int (length recs)"
    unfolding u using sum_tally[of "map URL recs"] by simp
  have pi: "\<forall>k c. uniqueIps k = Some c \<longrightarrow> 1 \<le> c"
    unfolding i using tally_positive by blast
  have pu: "\<forall>k c. urlHits k = Some c \<longrightarrow> 1 \<le> c"
    unfolding u using tally_positive by blast
  from si su pi pu readLogLines_length[OF rd] show ?thesis by simp
qed


theorem streaming_pass_counts_witness:
  "readLogLines (\<lambda>l v. v) (Some ten_fields)
     [''1.1.1.1 t GET /a HTTP  200 5 r ua'', ''junk'', ''1.1.1.1 t GET /b HTTP  200 5 r ua'']
     = Inr [\<lparr>RemoteHost = ''1.1.1.1'', Time = ''t'', Request = ''GET /a HTTP'', Status = 200,
              Bytes = 5, Referer = ''r'', UserAgent = ''ua'', URL = ''/a''\<rparr>,
            \<lparr>RemoteHost = ''1.1.1.1'', Time = ''t'', Request = ''GET /b HTTP'', Status = 200,
              Bytes = 5, Referer = ''r'', UserAgent = ''ua'', URL = ''/b''\<rparr>] \<and>
   streaming_pass
     [\<lparr>RemoteHost = ''1.1.1.1'', Time = ''t'', Request = ''GET /a HTTP'', Status = 200,
        Bytes = 5, Referer = ''r'', UserAgent = ''ua'', URL = ''/a''\<rparr>,
      \<lparr>RemoteHost = ''1.1.1.1'', Time = ''t'', Request = ''GET /b HTTP'', Status = 200,
        Bytes = 5, Referer = ''r'', UserAgent = ''ua'', URL = ''/b''\<rparr>] (Map.empty, Map.empty)
     = ([''1.1.1.1'' \<mapsto> 2], [''/a'' \<mapsto> 1, ''/b'' \<mapsto> 1]) \<and>
   (\<Sum>k\<in>dom [''1.1.1.1'' \<mapsto> 2::int]. the ([''1.1.1.1'' \<mapsto> 2::int] k)) = 2 \<and>
   (\<Sum>k\<in>dom [''/a'' \<mapsto> 1::int, ''/b'' \<mapsto> 1]. the ([''/a'' \<mapsto> 1::int, ''/b'' \<mapsto> 1] k)) = 2"
proof -
  let ?lns = "[''1.1.1.1 t GET /a HTTP  200 5 r ua'', ''junk'', ''1.1.1.1 t GET /b HTTP  200 5 r ua'']"
  let ?recs = "[\<lparr>RemoteHost = ''1.1.1.1'', Time = ''t'', Request = ''GET /a HTTP'', Status = 200,
              Bytes = 5, Referer = ''r'', UserAgent = ''ua'', URL = ''/a''\<rparr>,
            \<lparr>RemoteHost = ''1.1.1.1'', Time = ''t'', Request = ''GET /b HTTP'', Status = 200,
              Bytes = 5, Referer = ''r'', UserAgent = ''ua'', URL = ''/b''\<rparr>]"
  have rd: "readLogLines (\<lambda>l v. v) (Some ten_fields) ?lns = Inr ?recs"
    by (simp add: ten_fields_def lineItem_def Atoi_def is_digit_def digits_val_def layout_def)
  have sp: "streaming_pass ?recs (Map.empty, Map.empty)
     = ([''1.1.1.1'' \<mapsto> 2], [''/a'' \<mapsto> 1, ''/b'' \<mapsto> 1])"
    by (simp add: consolidate_def)
  from streaming_pass_counts[OF rd sp] rd sp show ?thesis by simp
qed

text \<open>
  Claim C9. For every frequency table and every count not above the number of distinct
  keys, every element of the list returned by \<open>topMost\<close> is a key of the table, and
  no key is listed twice.
\<close>

theorem topMost_keys_distinct:
  assumes sp: "sort_Slice_spec srt" and ro: "range_order keys m"
    and nk: "n \<le> int (card (dom m))"
  shows "\<exists>r. topMost srt keys m n = Inr r \<and> set r \<subseteq> dom m \<and> distinct r"
proof -
  from topMost_eq[OF sp ro, of n] obtain stats where
    ms: "mset stats = mset (map (\<lambda>k. \<lparr>address = k, count' = the (m k)\<rparr>) keys)"
    and res: "topMost srt keys m n = Inr (map address (take (nat n) stats))"
    using nk by auto
  note facts = stats_of_range[OF ms ro]
  have "distinct (take (nat n) (map address stats))"
    using facts(1) by (rule distinct_take)
  moreover have "set (take (nat n) (map address stats)) \<subseteq> dom m"
    using facts(2) set_take_subset by fastforce
  ultimately show ?thesis using res by (simp add: take_map)
qed


theorem topMost_keys_distinct_witness:
  "sort_Slice_spec insertionSort \<and>
   range_order [''b'', ''a'', ''c''] [''a'' \<mapsto> 3, ''b'' \<mapsto> 1, ''c'' \<mapsto> 2] \<and>
   3 \<le> int (card (dom [''a'' \<mapsto> 3::int, ''b'' \<mapsto> 1, ''c'' \<mapsto> 2])) \<and>
   (\<exists>r. topMost insertionSort [''b'', ''a'', ''c''] [''a'' \<mapsto> 3, ''b'' \<mapsto> 1, ''c'' \<mapsto> 2] 3 = Inr r \<and>
        set r \<subseteq> dom [''a'' \<mapsto> 3::int, ''b'' \<mapsto> 1, ''c'' \<mapsto> 2] \<and> distinct r)"
proof -
  let ?m = "[''a'' \<mapsto> 3::int, ''b'' \<mapsto> 1, ''c'' \<mapsto> 2]"
  have ro: "range_order [''b'', ''a'', ''c''] ?m" by (auto simp: range_order_def)
  have nk: "3 \<le> int (card (dom ?m))" by simp
  show ?thesis
    using insertionSort_spec ro nk topMost_keys_distinct[OF insertionSort_spec ro nk] by blast
qed




end
